theory Spec2Isabelle
  imports Main
begin

section \<open>Python string operations used by the parser\<close>

text \<open>
  A Python \<open>str\<close> is modelled as a \<open>string\<close> whose characters are the code points
  below 256.  \<open>isspace\<close> is the whitespace test of \<open>str.strip()\<close> on that range:
  U+0009..U+000D, U+001C..U+0020, U+0085 and U+00A0.
\<close>

definition isspace :: "char \<Rightarrow> bool" where
  "isspace c =
     (let n = (of_char c :: nat)
      in (9 \<le> n \<and> n \<le> 13) \<or> (28 \<le> n \<and> n \<le> 32) \<or> n = 133 \<or> n = 160)"

definition strip :: "string \<Rightarrow> string" where
  "strip s = rev (dropWhile isspace (rev (dropWhile isspace s)))"

definition startswith :: "string \<Rightarrow> string \<Rightarrow> bool" where
  "startswith s p = (take (length p) s = p)"

text \<open>\<open>s.split(sep)\<close> for a one-character separator: the pieces between the separators.\<close>

fun split_acc :: "char \<Rightarrow> string \<Rightarrow> string \<Rightarrow> string list" where
  "split_acc sep cur [] = [cur]"
| "split_acc sep cur (c # cs) =
     (if c = sep then cur # split_acc sep [] cs else split_acc sep (cur @ [c]) cs)"

definition split :: "char \<Rightarrow> string \<Rightarrow> string list" where
  "split sep s = split_acc sep [] s"

datatype exn = IndexError | KeyError | OSError | UnicodeDecodeError | OverflowError

text \<open>\<open>xs[i]\<close> for a non-negative index: out of range raises.\<close>

definition getitem :: "'a list \<Rightarrow> nat \<Rightarrow> exn + 'a" where
  "getitem xs i = (if i < length xs then Inr (xs ! i) else Inl IndexError)"

section \<open>Reading a text file\<close>

text \<open>
  \<open>open(filepath, 'r', encoding='utf-8')\<close> reads with universal newlines: \<open>\r\n\<close> and a
  lone \<open>\r\<close> arrive as \<open>\n\<close>.  \<open>readlines\<close> cuts the text after every \<open>\n\<close> and keeps
  the terminator on each line; a last line without terminator is kept as it is.
\<close>

definition LF :: char where
  "LF = CHR 0x0A"

definition CR :: char where
  "CR = CHR 0x0D"

fun translate_newlines :: "string \<Rightarrow> string" where
  "translate_newlines [] = []"
| "translate_newlines [c] = (if c = CR then [LF] else [c])"
| "translate_newlines (c # d # cs) =
     (if c = CR then (if d = LF then LF # translate_newlines cs
                     else LF # translate_newlines (d # cs))
      else c # translate_newlines (d # cs))"

fun lines_acc :: "string \<Rightarrow> string \<Rightarrow> string list" where
  "lines_acc cur [] = (if cur = [] then [] else [cur])"
| "lines_acc cur (c # cs) =
     (if c = LF then (cur @ [c]) # lines_acc [] cs else lines_acc (cur @ [c]) cs)"

definition readlines :: "string \<Rightarrow> string list" where
  "readlines text = lines_acc [] (translate_newlines text)"

text \<open>
  The file system is a parameter: for a path, the exception that \<open>open\<close> or
  \<open>readlines\<close> raises, or the decoded text of the file.
\<close>

type_synonym filesystem = "string \<Rightarrow> exn + string"

section \<open>The tune dictionary and the parser\<close>

text \<open>
  The dictionary \<open>current_tune\<close> has the keys \<open>'book_id'\<close>, \<open>'content'\<close>, \<open>'X'\<close>,
  \<open>'T'\<close>, \<open>'R'\<close> and \<open>'K'\<close>; a key that is absent is \<open>None\<close>.
\<close>

record tune =
  key_book_id :: "int option"
  key_content :: "string option"
  key_X :: "string option"
  key_T :: "string option"
  key_R :: "string option"
  key_K :: "string option"

definition empty_dict :: tune where
  "empty_dict = \<lparr>key_book_id = None, key_content = None, key_X = None,
                  key_T = None, key_R = None, key_K = None\<rparr>"

text \<open>The truth value of a dictionary: \<open>if current_tune:\<close> holds unless it is empty.\<close>

definition truthy :: "tune \<Rightarrow> bool" where
  "truthy t = (t \<noteq> empty_dict)"

record parser_state =
  tunes :: "tune list"
  current_tune :: tune
  in_tune :: bool

definition initial_state :: parser_state where
  "initial_state = \<lparr>tunes = [], current_tune = empty_dict, in_tune = False\<rparr>"

text \<open>
  One iteration of \<open>for line in lines\<close>.  An exception leaves the loop with the state
  reached when it was raised (\<open>Inl\<close>).
\<close>

definition step :: "int \<Rightarrow> string \<Rightarrow> parser_state \<Rightarrow> (exn \<times> parser_state) + parser_state" where
  "step book_id raw s =
     (let line = strip raw in
      if line = [] then Inr s
      else if startswith line ''X:'' then
        (let s1 = (if truthy (current_tune s)
                   then s\<lparr>tunes := tunes s @ [current_tune s]\<rparr> else s);
             s2 = s1\<lparr>current_tune :=
                       empty_dict\<lparr>key_book_id := Some book_id,
                                  key_content := Some (line @ [LF])\<rparr>\<rparr>
         in case getitem (split (CHR '':'') line) 1 of
              Inl e \<Rightarrow> Inl (e, s2)
            | Inr v \<Rightarrow>
                Inr (s2\<lparr>current_tune := (current_tune s2)\<lparr>key_X := Some (strip v)\<rparr>,
                        in_tune := True\<rparr>))
      else if in_tune s then
        (case key_content (current_tune s) of
           None \<Rightarrow> Inl (KeyError, s)
         | Some c \<Rightarrow>
            (let s1 = s\<lparr>current_tune :=
                         (current_tune s)\<lparr>key_content := Some (c @ line @ [LF])\<rparr>\<rparr>
             in if startswith line ''T:'' then
                  (if key_T (current_tune s1) = None then
                     (case getitem (split (CHR '':'') line) 1 of
                        Inl e \<Rightarrow> Inl (e, s1)
                      | Inr v \<Rightarrow>
                          Inr (s1\<lparr>current_tune :=
                                    (current_tune s1)\<lparr>key_T := Some (strip v)\<rparr>\<rparr>))
                   else Inr s1)
                else if startswith line ''R:'' then
                  (case getitem (split (CHR '':'') line) 1 of
                     Inl e \<Rightarrow> Inl (e, s1)
                   | Inr v \<Rightarrow>
                       Inr (s1\<lparr>current_tune :=
                                 (current_tune s1)\<lparr>key_R := Some (strip v)\<rparr>\<rparr>))
                else if startswith line ''K:'' then
                  (case getitem (split (CHR '':'') line) 1 of
                     Inl e \<Rightarrow> Inl (e, s1)
                   | Inr v \<Rightarrow>
                       Inr (s1\<lparr>current_tune :=
                                 (current_tune s1)\<lparr>key_K := Some (strip v)\<rparr>\<rparr>))
                else Inr s1))
      else Inr s)"

fun loop :: "int \<Rightarrow> string list \<Rightarrow> parser_state \<Rightarrow> (exn \<times> parser_state) + parser_state" where
  "loop book_id [] s = Inr s"
| "loop book_id (l # ls) s =
     (case step book_id l s of Inl e \<Rightarrow> Inl e | Inr s' \<Rightarrow> loop book_id ls s')"

text \<open>
  The body of the \<open>try\<close> once the lines are read: the loop, then the last tune.  The
  result is the exception caught by \<open>except Exception\<close>, if any, and the list \<open>tunes\<close>.
\<close>

definition parse_lines :: "int \<Rightarrow> string list \<Rightarrow> exn option \<times> tune list" where
  "parse_lines book_id ls =
     (case loop book_id ls initial_state of
        Inl (e, s) \<Rightarrow> (Some e, tunes s)
      | Inr s \<Rightarrow>
          (None, if truthy (current_tune s) then tunes s @ [current_tune s] else tunes s))"

text \<open>What the program prints, one constructor for each \<open>print\<close> of the ingestion path.\<close>

datatype printed =
  Error_reading string exn
| Skipping string string
| Processed int string nat

definition parse_abc_file :: "filesystem \<Rightarrow> string \<Rightarrow> int \<Rightarrow> printed list \<times> tune list" where
  "parse_abc_file fs filepath book_id =
     (case fs filepath of
        Inl e \<Rightarrow> ([Error_reading filepath e], [])
      | Inr text \<Rightarrow>
          (case parse_lines book_id (readlines text) of
             (Some e, ts) \<Rightarrow> ([Error_reading filepath e], ts)
           | (None, ts) \<Rightarrow> ([], ts)))"

section \<open>The table of tunes\<close>

text \<open>
  A row of the table \<open>tunes\<close>; \<open>None\<close> is SQL \<open>NULL\<close>.  The database is the list of its
  rows in rowid order, which is the order \<open>SELECT * FROM tunes\<close> scans them in, and the
  largest rowid given out so far (\<open>AUTOINCREMENT\<close>).  Input and output failures of
  the storage engine are not part of the model.
\<close>

record row =
  row_id :: nat
  book_id :: "int option"
  reference_number :: "string option"
  title :: "string option"
  rhythm :: "string option"
  key_sig :: "string option"
  content :: "string option"

record database =
  table :: "row list"
  seq :: nat

text \<open>\<open>TuneDatabase(db_name)\<close> on a file that does not exist yet.\<close>

definition create_table :: database where
  "create_table = \<lparr>table = [], seq = 0\<rparr>"

text \<open>\<open>d.get(k, default)\<close>.\<close>

definition get_default :: "'a option \<Rightarrow> 'a \<Rightarrow> 'a" where
  "get_default v d = (case v of None \<Rightarrow> d | Some x \<Rightarrow> x)"

text \<open>
  An \<open>INTEGER\<close> of SQLite is a signed 64-bit integer.  \<open>cursor.execute\<close> raises
  \<open>OverflowError\<close> when a Python \<open>int\<close> among its parameters is outside that range, and
  then no row is stored; \<open>None\<close> is bound as \<open>NULL\<close>.
\<close>

definition sqlite_integer :: "int \<Rightarrow> bool" where
  "sqlite_integer i = (- 9223372036854775808 \<le> i \<and> i \<le> 9223372036854775807)"

definition bindable :: "int option \<Rightarrow> bool" where
  "bindable v = (case v of None \<Rightarrow> True | Some i \<Rightarrow> sqlite_integer i)"

text \<open>The row that the \<open>INSERT\<close> appends, with the next rowid, and the commit.\<close>

definition insert_row :: "database \<Rightarrow> tune \<Rightarrow> database" where
  "insert_row db tune_data =
     \<lparr>table = table db @
        [\<lparr>row_id = seq db + 1,
          book_id = key_book_id tune_data,
          reference_number = key_X tune_data,
          title = Some (get_default (key_T tune_data) ''Unknown''),
          rhythm = Some (get_default (key_R tune_data) ''Unknown''),
          key_sig = Some (get_default (key_K tune_data) ''Unknown''),
          content = Some (get_default (key_content tune_data) [])\<rparr>],
      seq = seq db + 1\<rparr>"

definition insert_tune :: "database \<Rightarrow> tune \<Rightarrow> exn + database" where
  "insert_tune db tune_data =
     (if bindable (key_book_id tune_data) then Inr (insert_row db tune_data)
      else Inl OverflowError)"

text \<open>
  \<open>for tune in tunes_found: db.insert_tune(tune)\<close>: an exception leaves the loop with
  the rows stored before it.
\<close>

fun insert_all :: "database \<Rightarrow> tune list \<Rightarrow> (exn \<times> database) + database" where
  "insert_all db [] = Inr db"
| "insert_all db (t # ts) =
     (case insert_tune db t of Inl e \<Rightarrow> Inl (e, db) | Inr db' \<Rightarrow> insert_all db' ts)"

type_synonym dataframe = "row list"

definition load_data :: "database \<Rightarrow> dataframe" where
  "load_data db = table db"

section \<open>Ingestion of a directory\<close>






section \<open>Queries on the loaded table\<close>

definition get_tunes_by_book :: "dataframe \<Rightarrow> int \<Rightarrow> dataframe" where
  "get_tunes_by_book df b = filter (\<lambda>r. book_id r = Some b) df"

text \<open>
  \<open>Series.str.contains(pat, case=False, na=False)\<close> has \<open>regex=True\<close> by default: it
  compiles \<open>pat\<close> with \<open>re.IGNORECASE\<close> and keeps the rows where \<open>search\<close> finds a match;
  a null gives \<open>False\<close>.  The pattern language is modelled for patterns made of
  ordinary characters and \<open>.\<close> (any character but a newline); \<open>re_compile\<close> is \<open>None\<close>
  on a pattern with any other special character, which this model does not cover.
\<close>

datatype atom = Lit char | Dot

definition special :: "char \<Rightarrow> bool" where
  "special c = (c \<in> set ''^$*+?{}[]|()'' \<or> c = CHR 0x5C)"

fun re_compile :: "string \<Rightarrow> atom list option" where
  "re_compile [] = Some []"
| "re_compile (c # cs) =
     (if special c then None
      else case re_compile cs of
             None \<Rightarrow> None
           | Some as \<Rightarrow> Some ((if c = CHR ''.'' then Dot else Lit c) # as))"

text \<open>Lower case on the code points below 256: A..Z and U+00C0..U+00DE without U+00D7.\<close>

definition lower :: "char \<Rightarrow> char" where
  "lower c =
     (let n = (of_char c :: nat)
      in if (65 \<le> n \<and> n \<le> 90) \<or> (192 \<le> n \<and> n \<le> 214) \<or> (216 \<le> n \<and> n \<le> 222)
         then char_of (n + 32) else c)"

fun match_atom :: "atom \<Rightarrow> char \<Rightarrow> bool" where
  "match_atom (Lit c) d = (lower c = lower d)"
| "match_atom Dot d = (d \<noteq> LF)"

fun match_here :: "atom list \<Rightarrow> string \<Rightarrow> bool" where
  "match_here [] s = True"
| "match_here (a # as) [] = False"
| "match_here (a # as) (d # ds) = (match_atom a d \<and> match_here as ds)"

fun re_search :: "atom list \<Rightarrow> string \<Rightarrow> bool" where
  "re_search as [] = match_here as []"
| "re_search as (d # ds) = (match_here as (d # ds) \<or> re_search as ds)"

definition str_contains :: "atom list \<Rightarrow> string option \<Rightarrow> bool" where
  "str_contains rx v = (case v of None \<Rightarrow> False | Some s \<Rightarrow> re_search rx s)"

definition get_tunes_by_rhythm :: "dataframe \<Rightarrow> string \<Rightarrow> dataframe option" where
  "get_tunes_by_rhythm df pat =
     (case re_compile pat of
        None \<Rightarrow> None
      | Some rx \<Rightarrow> Some (filter (\<lambda>r. str_contains rx (rhythm r)) df))"

definition search_tunes :: "dataframe \<Rightarrow> string \<Rightarrow> dataframe option" where
  "search_tunes df search_term =
     (case re_compile search_term of
        None \<Rightarrow> None
      | Some rx \<Rightarrow> Some (filter (\<lambda>r. str_contains rx (title r)) df))"

section \<open>Reference definitions for the statements\<close>

text \<open>The lines the parser works on: every line stripped, the blank ones left out.\<close>

definition content_lines :: "string list \<Rightarrow> string list" where
  "content_lines ls = filter (\<lambda>l. l \<noteq> []) (map strip ls)"

definition is_opening :: "string \<Rightarrow> bool" where
  "is_opening l = startswith l ''X:''"

text \<open>
  The records of a list of lines: each opening line with the lines that follow it up to
  the next opening line; the lines before the first opening line belong to no record.
\<close>

function segments :: "string list \<Rightarrow> string list list" where
  "segments [] = []"
| "segments (l # ls) =
     (if is_opening l
      then (l # takeWhile (\<lambda>x. \<not> is_opening x) ls) #
           segments (dropWhile (\<lambda>x. \<not> is_opening x) ls)
      else segments ls)"
  by pat_completeness auto
termination
  by (relation "measure length") (auto simp: length_dropWhile_le less_Suc_eq_le)

text \<open>The piece between the first colon and the second one, for a two-character marker.\<close>

definition field_value :: "string \<Rightarrow> string" where
  "field_value l = strip (takeWhile (\<lambda>c. c \<noteq> CHR '':'') (drop 2 l))"

text \<open>Everything after the first colon.\<close>

definition after_first_colon :: "string \<Rightarrow> string" where
  "after_first_colon l = strip (drop 1 (dropWhile (\<lambda>c. c \<noteq> CHR '':'') l))"

primrec last_match :: "('a \<Rightarrow> bool) \<Rightarrow> 'a list \<Rightarrow> 'a option" where
  "last_match P [] = None"
| "last_match P (x # xs) =
     (case last_match P xs of Some y \<Rightarrow> Some y | None \<Rightarrow> if P x then Some x else None)"

text \<open>
  The dictionary of one record: its content is its lines, each with a newline; the title
  comes from the first \<open>T:\<close> line after the opening line, rhythm and key from the last
  \<open>R:\<close> and \<open>K:\<close> lines.
\<close>

definition record_of :: "int \<Rightarrow> string list \<Rightarrow> tune" where
  "record_of b seg =
     \<lparr>key_book_id = Some b,
      key_content = Some (concat (map (\<lambda>l. l @ [LF]) seg)),
      key_X = Some (field_value (hd seg)),
      key_T = map_option field_value (List.find (\<lambda>l. startswith l ''T:'') (tl seg)),
      key_R = map_option field_value (last_match (\<lambda>l. startswith l ''R:'') (tl seg)),
      key_K = map_option field_value (last_match (\<lambda>l. startswith l ''K:'') (tl seg))\<rparr>"

text \<open>A line without its terminator, and the lines of an input kept as they are.\<close>

definition chomp :: "string \<Rightarrow> string" where
  "chomp l = (if l \<noteq> [] \<and> last l = LF then butlast l else l)"

definition verbatim :: "string list \<Rightarrow> string" where
  "verbatim ls = concat (map (\<lambda>l. chomp l @ [LF]) (filter (\<lambda>l. strip l \<noteq> []) ls))"

text \<open>Substring test without regard to case.\<close>

fun is_prefix_ci :: "string \<Rightarrow> string \<Rightarrow> bool" where
  "is_prefix_ci [] s = True"
| "is_prefix_ci (c # cs) [] = False"
| "is_prefix_ci (c # cs) (d # ds) = (lower c = lower d \<and> is_prefix_ci cs ds)"

fun contains_ci :: "string \<Rightarrow> string \<Rightarrow> bool" where
  "contains_ci sub [] = is_prefix_ci sub []"
| "contains_ci sub (d # ds) = (is_prefix_ci sub (d # ds) \<or> contains_ci sub ds)"

text \<open>The tunes of a state once the open one is appended, as at the end of the input.\<close>

definition finish :: "parser_state \<Rightarrow> tune list" where
  "finish s = (if truthy (current_tune s) then tunes s @ [current_tune s] else tunes s)"

section \<open>The scenario of two tunes\<close>

text \<open>
  C1: the text of the two tunes 101 and 102, parsed with book 0, gives exactly two
  dictionaries, with the reference numbers (key \<open>X\<close>), titles (\<open>T\<close>), rhythms (\<open>R\<close>),
  keys (\<open>K\<close>) and contents of the scenario, and nothing is printed; inserted into a new
  table, they are the two rows of the scenario.
\<close>

theorem parse_two_tunes:
  "parse_abc_file
     (\<lambda>p. Inr ''X:101\<newline>T:The Test Reel\<newline>R:Reel\<newline>K:D\<newline>ABCD EFGH|\<newline>X:102\<newline>T:The Quick Jig\<newline>R:Jig\<newline>K:G\<newline>GBdB GBdB|\<newline>'')
     ''abc_books/0/sample0.abc'' 0 =
   ([],
    [\<lparr>key_book_id = Some 0,
      key_content = Some ''X:101\<newline>T:The Test Reel\<newline>R:Reel\<newline>K:D\<newline>ABCD EFGH|\<newline>'',
      key_X = Some ''101'', key_T = Some ''The Test Reel'',
      key_R = Some ''Reel'', key_K = Some ''D''\<rparr>,
     \<lparr>key_book_id = Some 0,
      key_content = Some ''X:102\<newline>T:The Quick Jig\<newline>R:Jig\<newline>K:G\<newline>GBdB GBdB|\<newline>'',
      key_X = Some ''102'', key_T = Some ''The Quick Jig'',
      key_R = Some ''Jig'', key_K = Some ''G''\<rparr>]) \<and>
   (case insert_all create_table (snd (parse_abc_file
     (\<lambda>p. Inr ''X:101\<newline>T:The Test Reel\<newline>R:Reel\<newline>K:D\<newline>ABCD EFGH|\<newline>X:102\<newline>T:The Quick Jig\<newline>R:Jig\<newline>K:G\<newline>GBdB GBdB|\<newline>'')
     ''abc_books/0/sample0.abc'' 0)) of
      Inl x \<Rightarrow> Inl x
    | Inr db \<Rightarrow> Inr (load_data db)) =
   Inr [\<lparr>row_id = 1, book_id = Some 0, reference_number = Some ''101'',
     title = Some ''The Test Reel'', rhythm = Some ''Reel'', key_sig = Some ''D'',
     content = Some ''X:101\<newline>T:The Test Reel\<newline>R:Reel\<newline>K:D\<newline>ABCD EFGH|\<newline>''\<rparr>,
    \<lparr>row_id = 2, book_id = Some 0, reference_number = Some ''102'',
     title = Some ''The Quick Jig'', rhythm = Some ''Jig'', key_sig = Some ''G'',
     content = Some ''X:102\<newline>T:The Quick Jig\<newline>R:Jig\<newline>K:G\<newline>GBdB GBdB|\<newline>''\<rparr>]"
  by code_simp

section \<open>Facts about the string operations\<close>

lemma last_dropWhile: "dropWhile P xs \<noteq> [] \<Longrightarrow> last (dropWhile P xs) = last xs"
  by (induction xs) (auto split: if_splits)

lemma strip_strip: "strip (strip s) = strip s"
proof -
  define u where "u = dropWhile isspace s"
  define w where "w = dropWhile isspace (rev u)"
  have 1: "dropWhile isspace (rev w) = rev w"
  proof (cases "w = []")
    case True then show ?thesis by simp
  next
    case False
    then have "last w = last (rev u)" unfolding w_def by (rule last_dropWhile)
    moreover have "u \<noteq> []" using False w_def by auto
    ultimately have "last w = hd u" by (simp add: last_rev)
    moreover have "\<not> isspace (hd u)" using \<open>u \<noteq> []\<close> unfolding u_def by (rule hd_dropWhile)
    ultimately have "\<not> isspace (hd (rev w))" using False by (simp add: hd_rev)
    then show ?thesis using False by (cases "rev w") auto
  qed
  have 2: "dropWhile isspace w = w" unfolding w_def by (rule dropWhile_idem)
  show ?thesis
    unfolding strip_def u_def[symmetric] w_def[symmetric] by (simp add: 1 2)
qed

lemma all_dropWhile: "(\<forall>x\<in>set (dropWhile P xs). P x) \<longleftrightarrow> (\<forall>x\<in>set xs. P x)"
  by (induction xs) auto

lemma strip_Nil_iff: "strip s = [] \<longleftrightarrow> (\<forall>c\<in>set s. isspace c)"
  by (simp add: strip_def dropWhile_eq_Nil_conv all_dropWhile)

lemma split_acc_take:
  "split_acc sep cur s =
     (cur @ takeWhile (\<lambda>c. c \<noteq> sep) s) #
     (case dropWhile (\<lambda>c. c \<noteq> sep) s of [] \<Rightarrow> [] | _ # r \<Rightarrow> split_acc sep [] r)"
  by (induction s arbitrary: cur) auto

lemma split_acc_nonempty: "split_acc sep cur s \<noteq> []"
  by (induction s arbitrary: cur) auto

lemma marker_getitem:
  assumes "startswith line [a, CHR '':'']" "a \<noteq> CHR '':''"
  shows "getitem (split (CHR '':'') line) 1 = Inr (takeWhile (\<lambda>c. c \<noteq> CHR '':'') (drop 2 line))"
proof -
  obtain r where l: "line = a # CHR '':'' # r"
    using assms(1) unfolding startswith_def
    by (cases line; cases "tl line") auto
  show ?thesis
    unfolding l split_def getitem_def using assms(2)
    by (simp add: split_acc_take[of _ "[]" r])
qed

section \<open>The loop, record by record\<close>

lemma step_strip: "step b (strip raw) s = step b raw s"
  by (simp add: step_def strip_strip)

lemma step_blank: "strip raw = [] \<Longrightarrow> step b raw s = Inr s"
  by (simp add: step_def)

lemma loop_append:
  "loop b (xs @ ys) s = (case loop b xs s of Inl e \<Rightarrow> Inl e | Inr s' \<Rightarrow> loop b ys s')"
  by (induction xs arbitrary: s) (auto split: sum.splits)

lemma loop_content_lines: "loop b (content_lines ls) s = loop b ls s"
proof (induction ls arbitrary: s)
  case Nil
  show ?case by (simp add: content_lines_def)
next
  case (Cons l ls)
  show ?case
  proof (cases "strip l = []")
    case True
    then have "content_lines (l # ls) = content_lines ls" by (simp add: content_lines_def)
    then show ?thesis using True Cons by (simp add: step_blank)
  next
    case False
    then have "content_lines (l # ls) = strip l # content_lines ls"
      by (simp add: content_lines_def)
    then show ?thesis using Cons by (simp add: step_strip split: sum.splits)
  qed
qed

lemma content_lines_clean: "l \<in> set (content_lines ls) \<Longrightarrow> strip l = l \<and> l \<noteq> []"
  by (auto simp: content_lines_def strip_strip)

lemma truthy_record_of: "truthy (record_of b seg)"
  by (simp add: truthy_def record_of_def empty_dict_def)

lemma step_open:
  assumes "strip l = l" "l \<noteq> []" "is_opening l"
  shows "step b l s = Inr \<lparr>tunes = finish s, current_tune = record_of b [l], in_tune = True\<rparr>"
proof -
  have g: "getitem (split (CHR '':'') l) (Suc 0) = Inr (takeWhile (\<lambda>c. c \<noteq> CHR '':'') (drop 2 l))"
    using assms(3) marker_getitem[where a = "CHR ''X''" and line = l] by (simp add: is_opening_def)
  show ?thesis
    using assms unfolding step_def
    by (simp add: g Let_def is_opening_def finish_def record_of_def field_value_def empty_dict_def)
qed

lemma find_snoc: "List.find P (xs @ [x]) = (case List.find P xs of Some y \<Rightarrow> Some y | None \<Rightarrow> if P x then Some x else None)"
  by (induction xs) auto

lemma last_match_snoc: "last_match P (xs @ [x]) = (if P x then Some x else last_match P xs)"
  by (induction xs) (auto split: option.splits)

lemma step_body:
  assumes "strip l = l" "l \<noteq> []" "\<not> is_opening l" "in_tune s"
    and "current_tune s = record_of b (x # pre)"
  shows "step b l s = Inr (s\<lparr>current_tune := record_of b (x # pre @ [l])\<rparr>)"
proof -
  have g: "startswith l [a, CHR '':''] \<Longrightarrow> a \<noteq> CHR '':'' \<Longrightarrow>
      getitem (split (CHR '':'') l) (Suc 0) = Inr (takeWhile (\<lambda>c. c \<noteq> CHR '':'') (drop 2 l))" for a
    using marker_getitem[of l a] by simp
  consider (T) "startswith l ''T:''" | (R) "startswith l ''R:''" | (K) "startswith l ''K:''"
    | (other) "\<not> startswith l ''T:''" "\<not> startswith l ''R:''" "\<not> startswith l ''K:''"
    by blast
  then show ?thesis
  proof cases
    case T
    then have n: "\<not> startswith l ''R:''" "\<not> startswith l ''K:''" by (auto simp: startswith_def)
    show ?thesis using assms T n g[OF T] unfolding step_def
      by (auto simp: Let_def is_opening_def record_of_def field_value_def find_snoc last_match_snoc split: option.splits)
  next
    case R
    then have n: "\<not> startswith l ''T:''" "\<not> startswith l ''K:''" by (auto simp: startswith_def)
    show ?thesis using assms R n g[OF R] unfolding step_def
      by (auto simp: Let_def is_opening_def record_of_def field_value_def find_snoc last_match_snoc split: option.splits)
  next
    case K
    then have n: "\<not> startswith l ''T:''" "\<not> startswith l ''R:''" by (auto simp: startswith_def)
    show ?thesis using assms K n g[OF K] unfolding step_def
      by (auto simp: Let_def is_opening_def record_of_def field_value_def find_snoc last_match_snoc split: option.splits)
  next
    case other
    show ?thesis using assms other unfolding step_def
      by (auto simp: Let_def is_opening_def record_of_def field_value_def find_snoc last_match_snoc split: option.splits)
  qed
qed

lemma loop_body:
  assumes "\<forall>l\<in>set bs. strip l = l \<and> l \<noteq> [] \<and> \<not> is_opening l" "in_tune s"
    and "current_tune s = record_of b (x # pre)"
  shows "loop b bs s = Inr (s\<lparr>current_tune := record_of b (x # pre @ bs)\<rparr>)"
  using assms
proof (induction bs arbitrary: s pre)
  case Nil
  then show ?case by simp
next
  case (Cons l bs)
  have st: "step b l s = Inr (s\<lparr>current_tune := record_of b (x # pre @ [l])\<rparr>)"
    using Cons.prems by (intro step_body) auto
  have "loop b bs (s\<lparr>current_tune := record_of b (x # pre @ [l])\<rparr>) =
        Inr (s\<lparr>current_tune := record_of b (x # pre @ [l])\<rparr>\<lparr>current_tune := record_of b (x # (pre @ [l]) @ bs)\<rparr>)"
    using Cons.prems by (intro Cons.IH) auto
  then show ?case using st by simp
qed

text \<open>
  The loop never raises, and its result is the list of the records of the stripped,
  non-blank lines.
\<close>

lemma loop_segments:
  assumes "\<forall>l\<in>set ls. strip l = l \<and> l \<noteq> []"
    and "(\<not> in_tune s \<and> current_tune s = empty_dict) \<or>
         (in_tune s \<and> (\<exists>x pre. current_tune s = record_of b (x # pre)) \<and>
          (ls = [] \<or> is_opening (hd ls)))"
  shows "\<exists>s'. loop b ls s = Inr s' \<and> finish s' = finish s @ map (record_of b) (segments ls)"
  using assms
proof (induction ls arbitrary: s rule: segments.induct)
  case 1
  then show ?case by simp
next
  case (2 l ls)
  have cl: "strip l = l" "l \<noteq> []" using "2.prems"(1) by auto
  show ?case
  proof (cases "is_opening l")
    case True
    define tk where "tk = takeWhile (\<lambda>x. \<not> is_opening x) ls"
    define dr where "dr = dropWhile (\<lambda>x. \<not> is_opening x) ls"
    define s1 where "s1 = \<lparr>tunes = finish s, current_tune = record_of b [l], in_tune = True\<rparr>"
    define s2 where "s2 = s1\<lparr>current_tune := record_of b (l # [] @ tk)\<rparr>"
    have ls: "ls = tk @ dr" by (simp add: tk_def dr_def)
    have st: "step b l s = Inr s1" unfolding s1_def using cl True by (rule step_open)
    have "\<forall>x\<in>set tk. strip x = x \<and> x \<noteq> [] \<and> \<not> is_opening x"
      using "2.prems"(1) unfolding tk_def by (auto dest: set_takeWhileD)
    then have bd: "loop b tk s1 = Inr s2"
      unfolding s2_def by (rule loop_body) (simp_all add: s1_def)
    have drc: "\<forall>x\<in>set dr. strip x = x \<and> x \<noteq> []"
      using "2.prems"(1) unfolding dr_def by (auto dest: set_dropWhileD)
    have hd: "dr = [] \<or> is_opening (hd dr)"
      unfolding dr_def using hd_dropWhile[of "\<lambda>x. \<not> is_opening x" ls] by auto
    have "\<exists>s'. loop b dr s2 = Inr s' \<and> finish s' = finish s2 @ map (record_of b) (segments dr)"
      unfolding dr_def
    proof (rule "2.IH"(1)[OF True])
      show "\<forall>l\<in>set (dropWhile (\<lambda>x. \<not> is_opening x) ls). strip l = l \<and> l \<noteq> []"
        using drc by (simp add: dr_def)
      show "(\<not> in_tune s2 \<and> current_tune s2 = empty_dict) \<or>
        (in_tune s2 \<and> (\<exists>x pre. current_tune s2 = record_of b (x # pre)) \<and>
         (dropWhile (\<lambda>x. \<not> is_opening x) ls = [] \<or> is_opening (hd (dropWhile (\<lambda>x. \<not> is_opening x) ls))))"
        using hd by (auto simp: s2_def s1_def dr_def)
    qed
    then obtain s' where s': "loop b dr s2 = Inr s'"
      "finish s' = finish s2 @ map (record_of b) (segments dr)" by blast
    have f2: "finish s2 = finish s @ [record_of b (l # tk)]"
      by (simp add: finish_def s2_def s1_def truthy_record_of)
    have "loop b (l # ls) s = Inr s'"
      using st bd s'(1) by (simp add: ls loop_append)
    moreover have "segments (l # ls) = (l # tk) # segments dr"
      using True by (simp add: tk_def dr_def)
    ultimately show ?thesis using s'(2) f2 by simp
  next
    case False
    then have ni: "\<not> in_tune s" "current_tune s = empty_dict" using "2.prems"(2) by auto
    have st: "step b l s = Inr s" using cl False ni by (simp add: step_def is_opening_def)
    have "\<exists>s'. loop b ls s = Inr s' \<and> finish s' = finish s @ map (record_of b) (segments ls)"
      using "2.IH"(2)[OF False] "2.prems"(1) ni by simp
    then show ?thesis using st False by simp
  qed
qed

lemma parse_lines_segments:
  "parse_lines b ls = (None, map (record_of b) (segments (content_lines ls)))"
proof -
  have "\<exists>s'. loop b (content_lines ls) initial_state = Inr s' \<and>
      finish s' = finish initial_state @ map (record_of b) (segments (content_lines ls))"
    by (rule loop_segments) (auto simp: initial_state_def dest: content_lines_clean)
  then obtain s' where "loop b ls initial_state = Inr s'"
    "finish s' = map (record_of b) (segments (content_lines ls))"
    by (auto simp: loop_content_lines finish_def initial_state_def truthy_def)
  then show ?thesis by (simp add: parse_lines_def finish_def)
qed


section \<open>The value of a marker line\<close>

text \<open>
  C2: the value stored for a marker line is said to be everything after the first
  colon, also on a line with more than one colon.  The parser stores
  \<open>line.split(':')[1]\<close>, the piece between the first colon and the second one: the
  title line \<open>T:Hornpipe: The Rights of Man\<close> gives the title \<open>Hornpipe\<close>, and
  everything after its first colon is \<open>Hornpipe: The Rights of Man\<close>.
\<close>

theorem title_cut_at_second_colon:
  "parse_lines 0 [''X:7\<newline>'', ''T:Hornpipe: The Rights of Man\<newline>''] =
     (None,
      [\<lparr>key_book_id = Some 0,
        key_content = Some ''X:7\<newline>T:Hornpipe: The Rights of Man\<newline>'',
        key_X = Some ''7'', key_T = Some ''Hornpipe'', key_R = None, key_K = None\<rparr>]) \<and>
   after_first_colon ''T:Hornpipe: The Rights of Man'' = ''Hornpipe: The Rights of Man''"
  by code_simp

text \<open>On a marker line with a single colon the two values are the same.\<close>

lemma field_value_one_colon:
  assumes "startswith l [a, CHR '':'']" "a \<noteq> CHR '':''" "CHR '':'' \<notin> set (drop 2 l)"
  shows "field_value l = after_first_colon l"
proof -
  obtain r where l: "l = a # CHR '':'' # r"
    using assms(1) unfolding startswith_def by (cases l; cases "tl l") auto
  have tw: "takeWhile (\<lambda>c. c \<noteq> CHR '':'') r = r"
    using assms(3) unfolding l by (auto intro: takeWhile_eq_all_conv[THEN iffD2])
  have fv: "field_value l = strip (takeWhile (\<lambda>c. c \<noteq> CHR '':'') r)"
    by (simp add: l field_value_def)
  have af: "after_first_colon l = strip r"
    using assms(2) by (simp add: l after_first_colon_def)
  show ?thesis unfolding fv af tw by (rule refl)
qed

section \<open>The content of a record\<close>

text \<open>
  C3, as stated: the content reproduces every line of the record exactly as it stood in
  the input.  It does not: of the line \<open>  ABC  \<close> the content keeps \<open>ABC\<close>.
\<close>

theorem content_not_verbatim:
  "map key_content (snd (parse_lines 0 [''X:1\<newline>'', ''  ABC  \<newline>''])) = [Some ''X:1\<newline>ABC\<newline>''] \<and>
   verbatim [''X:1\<newline>'', ''  ABC  \<newline>''] = ''X:1\<newline>  ABC  \<newline>'' \<and>
   map key_content (snd (parse_lines 0 [''X:1\<newline>'', ''  ABC  \<newline>''])) \<noteq>
     [Some (verbatim [''X:1\<newline>'', ''  ABC  \<newline>''])]"
  by code_simp

text \<open>
  C3, amended: the contents of the parsed records are, record by record (an opening line
  and the non-blank lines up to the next opening line or the end of the input) and in
  the order of the input, the lines of the record with their leading and trailing
  whitespace stripped, each followed by a newline.
\<close>

theorem content_is_stripped_lines:
  "map key_content (snd (parse_lines b ls)) =
     map (\<lambda>seg. Some (concat (map (\<lambda>l. l @ [LF]) seg))) (segments (content_lines ls))"
  by (simp add: parse_lines_segments record_of_def)

section \<open>Repeated title, rhythm and key lines\<close>

text \<open>
  C4: in every parsed record the title is the value of the first \<open>T:\<close> line of the
  record, the rhythm the value of its last \<open>R:\<close> line and the key the value of its last
  \<open>K:\<close> line (and the key is absent when the record has no such line).
\<close>

theorem title_first_rhythm_key_last:
  "map key_T (snd (parse_lines b ls)) =
     map (\<lambda>seg. map_option field_value (List.find (\<lambda>l. startswith l ''T:'') (tl seg)))
       (segments (content_lines ls)) \<and>
   map key_R (snd (parse_lines b ls)) =
     map (\<lambda>seg. map_option field_value (last_match (\<lambda>l. startswith l ''R:'') (tl seg)))
       (segments (content_lines ls)) \<and>
   map key_K (snd (parse_lines b ls)) =
     map (\<lambda>seg. map_option field_value (last_match (\<lambda>l. startswith l ''K:'') (tl seg)))
       (segments (content_lines ls))"
  by (simp add: parse_lines_segments record_of_def)

text \<open>Titles \<open>A\<close> then \<open>B\<close> give \<open>A\<close>; keys \<open>D\<close> then \<open>G\<close> give \<open>G\<close>.\<close>

lemma two_titles_two_keys:
  "parse_lines 0 [''X:1\<newline>'', ''T:A\<newline>'', ''T:B\<newline>'', ''K:D\<newline>'', ''K:G\<newline>'',
                  ''R:Reel\<newline>'', ''R:Jig\<newline>''] =
     (None,
      [\<lparr>key_book_id = Some 0,
        key_content = Some ''X:1\<newline>T:A\<newline>T:B\<newline>K:D\<newline>K:G\<newline>R:Reel\<newline>R:Jig\<newline>'',
        key_X = Some ''1'', key_T = Some ''A'', key_R = Some ''Jig'', key_K = Some ''G''\<rparr>])"
  by code_simp

section \<open>Filters by rhythm and by title\<close>

text \<open>
  C5: the filters are said to keep the rows whose rhythm (or title) contains the argument
  as a substring, whatever characters the argument has.  The argument is a regular
  expression: the filter by \<open>.\<close> keeps a row with the rhythm \<open>Reel\<close>, and the search
  for \<open>T.st\<close> keeps the title \<open>The Test Reel\<close>, though neither text contains the
  argument.
\<close>

theorem contains_is_regex_search:
  "get_tunes_by_rhythm
     [\<lparr>row_id = 1, book_id = Some 0, reference_number = Some ''101'',
       title = Some ''The Test Reel'', rhythm = Some ''Reel'', key_sig = Some ''D'',
       content = Some ''X:101\<newline>''\<rparr>] ''.'' =
   Some [\<lparr>row_id = 1, book_id = Some 0, reference_number = Some ''101'',
       title = Some ''The Test Reel'', rhythm = Some ''Reel'', key_sig = Some ''D'',
       content = Some ''X:101\<newline>''\<rparr>] \<and>
   \<not> contains_ci ''.'' ''Reel'' \<and>
   search_tunes
     [\<lparr>row_id = 1, book_id = Some 0, reference_number = Some ''101'',
       title = Some ''The Test Reel'', rhythm = Some ''Reel'', key_sig = Some ''D'',
       content = Some ''X:101\<newline>''\<rparr>] ''T.st'' =
   Some [\<lparr>row_id = 1, book_id = Some 0, reference_number = Some ''101'',
       title = Some ''The Test Reel'', rhythm = Some ''Reel'', key_sig = Some ''D'',
       content = Some ''X:101\<newline>''\<rparr>] \<and>
   \<not> contains_ci ''T.st'' ''The Test Reel''"
  by code_simp

text \<open>For an argument of ordinary characters the filter is the substring test.\<close>

lemma re_compile_plain:
  "\<forall>c\<in>set pat. \<not> special c \<and> c \<noteq> CHR ''.'' \<Longrightarrow> re_compile pat = Some (map Lit pat)"
  by (induction pat) auto

lemma match_here_plain: "match_here (map Lit pat) s = is_prefix_ci pat s"
  by (induction pat s rule: is_prefix_ci.induct) auto

lemma re_search_plain: "re_search (map Lit pat) s = contains_ci pat s"
  by (induction s) (auto simp: match_here_plain)

lemma get_tunes_by_rhythm_plain:
  assumes "\<forall>c\<in>set pat. \<not> special c \<and> c \<noteq> CHR ''.''"
  shows "get_tunes_by_rhythm df pat =
     Some (filter (\<lambda>r. case rhythm r of None \<Rightarrow> False | Some s \<Rightarrow> contains_ci pat s) df)"
  using re_compile_plain[OF assms]
  by (auto simp: get_tunes_by_rhythm_def str_contains_def re_search_plain
      intro!: filter_cong split: option.splits)

lemma search_tunes_plain:
  assumes "\<forall>c\<in>set pat. \<not> special c \<and> c \<noteq> CHR ''.''"
  shows "search_tunes df pat =
     Some (filter (\<lambda>r. case title r of None \<Rightarrow> False | Some s \<Rightarrow> contains_ci pat s) df)"
  using re_compile_plain[OF assms]
  by (auto simp: search_tunes_def str_contains_def re_search_plain
      intro!: filter_cong split: option.splits)

text \<open>The argument \<open>jig\<close> keeps the rhythm \<open>Jig\<close>, and neither \<open>Reel\<close> nor a null.\<close>

lemma jig_matches_Jig:
  "get_tunes_by_rhythm
     [\<lparr>row_id = 1, book_id = Some 0, reference_number = Some ''101'',
       title = Some ''The Test Reel'', rhythm = Some ''Reel'', key_sig = Some ''D'',
       content = Some ''X:101\<newline>''\<rparr>,
      \<lparr>row_id = 2, book_id = Some 0, reference_number = Some ''102'',
       title = Some ''The Quick Jig'', rhythm = Some ''Jig'', key_sig = Some ''G'',
       content = Some ''X:102\<newline>''\<rparr>,
      \<lparr>row_id = 3, book_id = Some 0, reference_number = Some ''103'',
       title = None, rhythm = None, key_sig = Some ''G'',
       content = Some ''X:103\<newline>''\<rparr>] ''jig'' =
   Some [\<lparr>row_id = 2, book_id = Some 0, reference_number = Some ''102'',
       title = Some ''The Quick Jig'', rhythm = Some ''Jig'', key_sig = Some ''G'',
       content = Some ''X:102\<newline>''\<rparr>]"
  by code_simp

section \<open>Insertion and loading\<close>








section \<open>Blank lines and lines before the first opening line\<close>

lemma content_lines_append: "content_lines (xs @ ys) = content_lines xs @ content_lines ys"
  by (simp add: content_lines_def)

lemma content_lines_blank: "strip l = [] \<Longrightarrow> content_lines (l # ls) = content_lines ls"
  by (simp add: content_lines_def)

lemma content_lines_filter: "content_lines (filter (\<lambda>l. strip l \<noteq> []) ls) = content_lines ls"
  by (induction ls) (simp_all add: content_lines_def)

lemma content_lines_source: "l \<in> set (content_lines ls) \<Longrightarrow> \<exists>r\<in>set ls. l = strip r \<and> strip r \<noteq> []"
  by (auto simp: content_lines_def)

lemma segments_no_opening: "\<forall>l\<in>set pre. \<not> is_opening l \<Longrightarrow> segments (pre @ ls) = segments ls"
  by (induction pre) auto

lemma segments_member:
  "seg \<in> set (segments xs) \<Longrightarrow> seg \<noteq> [] \<and> is_opening (hd seg) \<and> set seg \<subseteq> set xs"
proof (induction xs rule: segments.induct)
  case 1
  then show ?case by simp
next
  case (2 l ls)
  show ?case
  proof (cases "is_opening l")
    case True
    then consider "seg = l # takeWhile (\<lambda>x. \<not> is_opening x) ls"
      | "seg \<in> set (segments (dropWhile (\<lambda>x. \<not> is_opening x) ls))"
      using "2.prems" by auto
    then show ?thesis
    proof cases
      case 1
      then show ?thesis using True by (auto dest: set_takeWhileD)
    next
      case 2
      then have "seg \<noteq> [] \<and> is_opening (hd seg) \<and>
          set seg \<subseteq> set (dropWhile (\<lambda>x. \<not> is_opening x) ls)"
        using "2.IH"(1)[OF True] by simp
      then show ?thesis by (auto dest: set_dropWhileD)
    qed
  next
    case False
    then have "seg \<in> set (segments ls)" using "2.prems" by simp
    then show ?thesis using "2.IH"(2)[OF False] by auto
  qed
qed

section \<open>Reading the content back\<close>

lemma CR_not_LF: "CR \<noteq> LF"
  by (simp add: CR_def LF_def)

lemma translate_newlines_no_CR: "CR \<notin> set (translate_newlines t)"
  using CR_not_LF by (induction t rule: translate_newlines.induct) auto

lemma translate_newlines_id: "CR \<notin> set t \<Longrightarrow> translate_newlines t = t"
  by (induction t rule: translate_newlines.induct) auto

lemma lines_acc_chars: "l \<in> set (lines_acc cur t) \<Longrightarrow> set l \<subseteq> set cur \<union> set t"
proof (induction t arbitrary: cur)
  case Nil
  then show ?case by (auto split: if_splits)
next
  case (Cons c t)
  show ?case
  proof (cases "c = LF")
    case True
    then have "l = cur @ [c] \<or> l \<in> set (lines_acc [] t)" using Cons.prems by simp
    then show ?thesis using Cons.IH[of "[]"] by auto
  next
    case False
    then have "l \<in> set (lines_acc (cur @ [c]) t)" using Cons.prems by simp
    then show ?thesis using Cons.IH[of "cur @ [c]"] by auto
  qed
qed

lemma lines_acc_LF: "l \<in> set (lines_acc cur t) \<Longrightarrow> LF \<notin> set cur \<Longrightarrow> LF \<notin> set (butlast l)"
proof (induction t arbitrary: cur)
  case Nil
  then show ?case by (auto split: if_splits dest: in_set_butlastD)
next
  case (Cons c t)
  show ?case
  proof (cases "c = LF")
    case True
    then have "l = cur @ [c] \<or> l \<in> set (lines_acc [] t)" using Cons.prems by simp
    then show ?thesis using Cons.IH[of "[]"] Cons.prems(2) by auto
  next
    case False
    then have "l \<in> set (lines_acc (cur @ [c]) t)" using Cons.prems by simp
    then show ?thesis using Cons.IH[of "cur @ [c]"] Cons.prems(2) False by auto
  qed
qed

lemma readlines_chars:
  assumes "l \<in> set (readlines text)"
  shows "CR \<notin> set l" and "LF \<notin> set (butlast l)"
proof -
  show "CR \<notin> set l"
    using lines_acc_chars[OF assms[unfolded readlines_def]] translate_newlines_no_CR by auto
  show "LF \<notin> set (butlast l)"
    using lines_acc_LF[OF assms[unfolded readlines_def]] by simp
qed

lemma set_strip: "set (strip s) \<subseteq> set s"
  by (auto simp: strip_def dest!: set_dropWhileD)

lemma isspace_LF: "isspace LF"
  by (simp add: isspace_def LF_def)

lemma strip_no_LF:
  assumes "LF \<notin> set (butlast s)"
  shows "LF \<notin> set (strip s)"
proof
  assume a: "LF \<in> set (strip s)"
  then have ne: "strip s \<noteq> []" by auto
  define u where "u = dropWhile isspace s"
  have su: "strip s = rev (dropWhile isspace (rev u))" by (simp add: strip_def u_def)
  have "u \<noteq> []" using ne su by auto
  obtain p where p: "s = p @ u" unfolding u_def
    by (metis takeWhile_dropWhile_id)
  have bu: "LF \<notin> set (butlast u)"
    using assms \<open>u \<noteq> []\<close> unfolding p by (simp add: butlast_append)
  show False
  proof (cases "isspace (last u)")
    case True
    have "rev u = rev (butlast u @ [last u])"
      using \<open>u \<noteq> []\<close> by simp
    then have ru: "rev u = last u # rev (butlast u)"
      by simp
    have "dropWhile isspace (rev u) = dropWhile isspace (rev (butlast u))"
      by (subst ru) (simp add: True)
    then have "set (strip s) \<subseteq> set (butlast u)"
      unfolding su by (auto dest!: set_dropWhileD)
    then show False using a bu by auto
  next
    case False
    then have "last u \<noteq> LF" using isspace_LF by auto
    moreover have "set u = set (butlast u) \<union> {last u}"
      using \<open>u \<noteq> []\<close> by (metis append_butlast_last_id set_append list.simps(15) empty_set Un_commute insert_is_Un)
    ultimately have "LF \<notin> set u" using bu by auto
    moreover have "set (strip s) \<subseteq> set u" unfolding su by (auto dest!: set_dropWhileD)
    ultimately show False using a by auto
  qed
qed

lemma lines_acc_line:
  "LF \<notin> set l \<Longrightarrow> lines_acc cur (l @ LF # rest) = (cur @ l @ [LF]) # lines_acc [] rest"
  by (induction l arbitrary: cur) auto

lemma lines_acc_concat:
  "\<forall>l\<in>set seg. LF \<notin> set l \<Longrightarrow>
   lines_acc [] (concat (map (\<lambda>l. l @ [LF]) seg)) = map (\<lambda>l. l @ [LF]) seg"
  by (induction seg) (simp_all add: lines_acc_line)

lemma readlines_concat:
  assumes "\<forall>l\<in>set seg. LF \<notin> set l \<and> CR \<notin> set l"
  shows "readlines (concat (map (\<lambda>l. l @ [LF]) seg)) = map (\<lambda>l. l @ [LF]) seg"
proof -
  have "CR \<notin> set (concat (map (\<lambda>l. l @ [LF]) seg))"
    using assms by (auto simp: CR_not_LF)
  then show ?thesis
    using assms by (simp add: readlines_def translate_newlines_id lines_acc_concat)
qed

lemma strip_snoc_nonblank: "strip l \<noteq> [] \<Longrightarrow> strip (l @ [c]) \<noteq> []"
  by (auto simp: strip_Nil_iff)

section \<open>Blank lines\<close>

text \<open>
  C7: blank lines are discarded.  Parsing the lines without the blank ones gives the same
  result, a blank line put anywhere between the lines of an input changes nothing (it
  neither closes, nor opens, nor extends a record), and no content of a record parsed
  from a text has a blank line when it is read back as lines.
\<close>

theorem blank_lines_discarded:
  "parse_lines b (filter (\<lambda>l. strip l \<noteq> []) ls) = parse_lines b ls \<and>
   (strip bl = [] \<longrightarrow> parse_lines b (xs @ bl # ys) = parse_lines b (xs @ ys)) \<and>
   (\<forall>t\<in>set (snd (parse_lines b (readlines src))).
      \<exists>c. key_content t = Some c \<and> (\<forall>l\<in>set (readlines c). strip l \<noteq> []))"
proof (intro conjI impI ballI)
  show "parse_lines b (filter (\<lambda>l. strip l \<noteq> []) ls) = parse_lines b ls"
    by (simp add: parse_lines_segments content_lines_filter)
next
  assume "strip bl = []"
  then have "content_lines (xs @ bl # ys) = content_lines (xs @ ys)"
    by (simp add: content_lines_append content_lines_blank)
  then show "parse_lines b (xs @ bl # ys) = parse_lines b (xs @ ys)"
    by (simp add: parse_lines_segments)
next
  fix t
  assume "t \<in> set (snd (parse_lines b (readlines src)))"
  then obtain seg where seg: "seg \<in> set (segments (content_lines (readlines src)))"
    and t: "t = record_of b seg"
    by (auto simp: parse_lines_segments)
  have clean: "LF \<notin> set l \<and> CR \<notin> set l \<and> strip l \<noteq> []" if "l \<in> set seg" for l
  proof -
    have "l \<in> set (content_lines (readlines src))"
      using that segments_member[OF seg] by auto
    then obtain r where r: "r \<in> set (readlines src)" "l = strip r" "strip r \<noteq> []"
      using content_lines_source by blast
    have "LF \<notin> set l" unfolding r(2) using readlines_chars(2)[OF r(1)] by (rule strip_no_LF)
    moreover have "CR \<notin> set l" unfolding r(2) using readlines_chars(1)[OF r(1)] set_strip by auto
    moreover have "strip l \<noteq> []" using r(2,3) by (simp add: strip_strip)
    ultimately show ?thesis by simp
  qed
  define c where "c = concat (map (\<lambda>l. l @ [LF]) seg)"
  have "readlines c = map (\<lambda>l. l @ [LF]) seg"
    unfolding c_def using clean by (intro readlines_concat) auto
  then have "\<forall>l\<in>set (readlines c). strip l \<noteq> []"
    using clean by (auto simp: strip_Nil_iff)
  moreover have "key_content t = Some c" by (simp add: t c_def record_of_def)
  ultimately show "\<exists>c. key_content t = Some c \<and> (\<forall>l\<in>set (readlines c). strip l \<noteq> [])"
    by blast
qed

theorem blank_lines_discarded_witness:
  "strip ''  \<newline>'' = [] \<and>
   parse_lines 0 ([''X:1\<newline>''] @ ''  \<newline>'' # [''T:A\<newline>'']) =
     parse_lines 0 ([''X:1\<newline>''] @ [''T:A\<newline>'']) \<and>
   \<lparr>key_book_id = Some 0, key_content = Some ''X:1\<newline>T:A\<newline>'', key_X = Some ''1'',
     key_T = Some ''A'', key_R = None, key_K = None\<rparr>
     \<in> set (snd (parse_lines 0 (readlines ''X:1\<newline>\<newline>  \<newline>T:A\<newline>''))) \<and>
   (\<exists>c. key_content \<lparr>key_book_id = Some 0, key_content = Some ''X:1\<newline>T:A\<newline>'',
            key_X = Some ''1'', key_T = Some ''A'', key_R = None, key_K = None\<rparr> = Some c \<and>
        (\<forall>l\<in>set (readlines c). strip l \<noteq> []))"
proof -
  have h: "strip ''  \<newline>'' = []" by code_simp
  have m: "\<lparr>key_book_id = Some 0, key_content = Some ''X:1\<newline>T:A\<newline>'', key_X = Some ''1'',
     key_T = Some ''A'', key_R = None, key_K = None\<rparr>
     \<in> set (snd (parse_lines 0 (readlines ''X:1\<newline>\<newline>  \<newline>T:A\<newline>'')))" by code_simp
  note T = blank_lines_discarded[where b = 0 and bl = "''  \<newline>''" and xs = "[''X:1\<newline>'']"
      and ys = "[''T:A\<newline>'']" and src = "''X:1\<newline>\<newline>  \<newline>T:A\<newline>''"]
  show ?thesis using h m T by blast
qed

section \<open>Lines before the first opening line\<close>

text \<open>
  C8: lines that come before any opening line produce no record: an input none of whose
  lines (stripped) starts with \<open>X:\<close> parses to the empty list, and such lines put in
  front of an input do not change its result.  Every record returned has an opening line
  in the input, which gives its reference number and starts its content.
\<close>

theorem no_record_without_opening_line:
  "((\<forall>l\<in>set pre. \<not> is_opening (strip l)) \<longrightarrow>
      parse_lines b pre = (None, []) \<and> parse_lines b (pre @ ls) = parse_lines b ls) \<and>
   (\<forall>t\<in>set (snd (parse_lines b ls)).
      \<exists>l\<in>set ls. is_opening (strip l) \<and> key_X t = Some (field_value (strip l)) \<and>
        (\<exists>rest. key_content t = Some (strip l @ LF # rest)))"
proof (intro conjI impI ballI)
  assume a: "\<forall>l\<in>set pre. \<not> is_opening (strip l)"
  have n: "\<forall>l\<in>set (content_lines pre). \<not> is_opening l"
    using a by (auto dest!: content_lines_source)
  have "segments (content_lines pre @ []) = segments []"
    using n by (rule segments_no_opening)
  then show "parse_lines b pre = (None, [])"
    by (simp add: parse_lines_segments)
  have "segments (content_lines pre @ content_lines ls) = segments (content_lines ls)"
    using n by (rule segments_no_opening)
  then show "parse_lines b (pre @ ls) = parse_lines b ls"
    by (simp add: parse_lines_segments content_lines_append)
next
  fix t
  assume "t \<in> set (snd (parse_lines b ls))"
  then obtain seg where seg: "seg \<in> set (segments (content_lines ls))"
    and t: "t = record_of b seg"
    by (auto simp: parse_lines_segments)
  have s: "seg \<noteq> []" "is_opening (hd seg)" "set seg \<subseteq> set (content_lines ls)"
    using segments_member[OF seg] by auto
  then have "hd seg \<in> set (content_lines ls)" by (cases seg) auto
  then obtain r where r: "r \<in> set ls" "hd seg = strip r"
    using content_lines_source by blast
  have "key_content t = Some (hd seg @ LF # concat (map (\<lambda>l. l @ [LF]) (tl seg)))"
    using s(1) by (cases seg) (simp_all add: t record_of_def)
  moreover have "key_X t = Some (field_value (hd seg))" by (simp add: t record_of_def)
  ultimately show "\<exists>l\<in>set ls. is_opening (strip l) \<and> key_X t = Some (field_value (strip l)) \<and>
        (\<exists>rest. key_content t = Some (strip l @ LF # rest))"
    using r s(2) by auto
qed

theorem no_record_without_opening_line_witness:
  "list_all (\<lambda>l. \<not> is_opening (strip l)) [''T:Lost\<newline>'', ''abc\<newline>''] \<and>
   parse_lines 0 [''T:Lost\<newline>'', ''abc\<newline>''] = (None, []) \<and>
   parse_lines 0 ([''T:Lost\<newline>'', ''abc\<newline>''] @ [''X:1\<newline>'', ''K:D\<newline>'']) =
     parse_lines 0 [''X:1\<newline>'', ''K:D\<newline>''] \<and>
   \<lparr>key_book_id = Some 0, key_content = Some ''X:1\<newline>K:D\<newline>'', key_X = Some ''1'',
     key_T = None, key_R = None, key_K = Some ''D''\<rparr>
     \<in> set (snd (parse_lines 0 [''X:1\<newline>'', ''K:D\<newline>''])) \<and>
   (\<exists>l\<in>set [''X:1\<newline>'', ''K:D\<newline>'']. is_opening (strip l) \<and>
      key_X \<lparr>key_book_id = Some 0, key_content = Some ''X:1\<newline>K:D\<newline>'', key_X = Some ''1'',
        key_T = None, key_R = None, key_K = Some ''D''\<rparr> = Some (field_value (strip l)) \<and>
      (\<exists>rest. key_content \<lparr>key_book_id = Some 0, key_content = Some ''X:1\<newline>K:D\<newline>'',
          key_X = Some ''1'', key_T = None, key_R = None, key_K = Some ''D''\<rparr> =
        Some (strip l @ LF # rest)))"
proof -
  have h: "list_all (\<lambda>l. \<not> is_opening (strip l)) [''T:Lost\<newline>'', ''abc\<newline>'']" by code_simp
  then have h': "\<forall>l\<in>set [''T:Lost\<newline>'', ''abc\<newline>'']. \<not> is_opening (strip l)"
    unfolding list_all_iff .
  have m: "\<lparr>key_book_id = Some 0, key_content = Some ''X:1\<newline>K:D\<newline>'', key_X = Some ''1'',
     key_T = None, key_R = None, key_K = Some ''D''\<rparr>
     \<in> set (snd (parse_lines 0 [''X:1\<newline>'', ''K:D\<newline>'']))" by code_simp
  note T = no_record_without_opening_line[where b = 0 and pre = "[''T:Lost\<newline>'', ''abc\<newline>'']"
      and ls = "[''X:1\<newline>'', ''K:D\<newline>'']"]
  show ?thesis using h h' m T by blast
qed

section \<open>A source that cannot be read\<close>








section \<open>Stripping and the case of the markers\<close>








end
